theory Spec2Isabelle
  imports Complex_Main "HOL-Library.Multiset"
begin

section \<open>Median of two sorted arrays: the embedding\<close>

text \<open>
  The source is one Python function, \<^verbatim>\<open>findMedianSortedArrays(nums1, nums2)\<close>.
  The elements of the two lists are Python integers (unbounded, type \<open>int\<close>); list
  lengths, \<^verbatim>\<open>left\<close>, \<^verbatim>\<open>right\<close> and the two partition indices are Python integers
  too, so \<^verbatim>\<open>right\<close> may become \<open>-1\<close>.  Python's \<^verbatim>\<open>//\<close> and \<^verbatim>\<open>%\<close> with the positive
  divisor 2 are \<open>div\<close> and \<open>mod\<close> on \<open>int\<close>.

  The true division \<^verbatim>\<open>/ 2\<close> of the even branch yields a float.  It is modelled by
  the exact quotient, a rational: that is the value Python returns whenever the sum of
  the two middle elements lies within \<open>\<plusminus>2^53\<close>.  Beyond that Python rounds to the
  nearest double, and for a sum outside the range of a double it raises
  \<^verbatim>\<open>OverflowError\<close>; neither is modelled.  List elements that are themselves floats
  are outside the model as well.

  \<^verbatim>\<open>max(x, y)\<close> and \<^verbatim>\<open>min(x, y)\<close> return their first argument when the two compare
  equal, \<open>max\<close> and \<open>min\<close> of a linear order the second; on boundary values equal
  means identical, so the results agree.
\<close>

subsection \<open>Values\<close>

text \<open>
  A boundary value (\<^verbatim>\<open>max1\<close>, \<^verbatim>\<open>min1\<close>, \<^verbatim>\<open>max2\<close>, \<^verbatim>\<open>min2\<close>) is \<^verbatim>\<open>float('-inf')\<close>, an
  element of a list, or \<^verbatim>\<open>float('inf')\<close>.  Python compares an integer with an
  infinity in the expected way, which is the linear order below.
\<close>

datatype bound = NegInf | Val int | PosInf

instantiation bound :: linorder
begin

fun less_eq_bound :: "bound \<Rightarrow> bound \<Rightarrow> bool" where
  "less_eq_bound NegInf y = True"
| "less_eq_bound (Val a) NegInf = False"
| "less_eq_bound (Val a) (Val b) = (a \<le> b)"
| "less_eq_bound (Val a) PosInf = True"
| "less_eq_bound PosInf PosInf = True"
| "less_eq_bound PosInf y = False"

definition less_bound :: "bound \<Rightarrow> bound \<Rightarrow> bool" where
  "less_bound x y \<longleftrightarrow> x \<le> y \<and> \<not> y \<le> x"

instance
proof
  fix x y z :: bound
  show "(x < y) = (x \<le> y \<and> \<not> y \<le> x)"
    by (simp add: less_bound_def)
  show "x \<le> x"
    by (cases x) simp_all
  show "x \<le> y \<Longrightarrow> y \<le> z \<Longrightarrow> x \<le> z"
    by (cases x; cases y; cases z) simp_all
  show "x \<le> y \<Longrightarrow> y \<le> x \<Longrightarrow> x = y"
    by (cases x; cases y) simp_all
  show "x \<le> y \<or> y \<le> x"
    by (cases x; cases y) auto
qed

end

text \<open>
  What the function can hand back: an integer element as it is (odd branch), a finite
  float (even branch), one of the three special floats, or Python's \<^verbatim>\<open>None\<close> when the
  \<^verbatim>\<open>while\<close> loop is left without a \<^verbatim>\<open>return\<close>.
\<close>

datatype pyresult = RInt int | RFloat rat | RNegInf | RPosInf | RNaN | RNone

datatype error = IndexError

text \<open>\<^verbatim>\<open>xs[i]\<close>: a negative index counts from the end, anything else out of range raises.\<close>

definition getitem :: "int list \<Rightarrow> int \<Rightarrow> error + bound" where
  "getitem xs i =
     (let len = int (length xs); j = (if i < 0 then len + i else i)
      in if 0 \<le> j \<and> j < len then Inr (Val (xs ! nat j)) else Inl IndexError)"

text \<open>\<^verbatim>\<open>max(x, y)\<close> in the odd branch: the boundary value itself is returned.\<close>

fun of_bound :: "bound \<Rightarrow> pyresult" where
  "of_bound NegInf = RNegInf"
| "of_bound (Val a) = RInt a"
| "of_bound PosInf = RPosInf"

text \<open>
  \<^verbatim>\<open>(x + y) / 2\<close> in the even branch.  Two integers are added exactly and then divided;
  an infinity absorbs an integer; \<open>-inf + inf\<close> is NaN, and so is its half.
\<close>

fun mean2 :: "bound \<Rightarrow> bound \<Rightarrow> pyresult" where
  "mean2 (Val a) (Val b) = RFloat (of_int (a + b) / 2)"
| "mean2 NegInf PosInf = RNaN"
| "mean2 PosInf NegInf = RNaN"
| "mean2 NegInf y = RNegInf"
| "mean2 x NegInf = RNegInf"
| "mean2 PosInf y = RPosInf"
| "mean2 x PosInf = RPosInf"

subsection \<open>One iteration of the loop\<close>

text \<open>
  The four boundary values of a candidate partition, evaluated in the source's order;
  the first failing list access raises.
\<close>

definition boundaries ::
  "int list \<Rightarrow> int list \<Rightarrow> int \<Rightarrow> int \<Rightarrow> error + (bound \<times> bound \<times> bound \<times> bound)" where
  "boundaries nums1 nums2 partition1 partition2 =
     (let m = int (length nums1); n = int (length nums2) in
      case (if partition1 = 0 then Inr NegInf else getitem nums1 (partition1 - 1)) of
        Inl e \<Rightarrow> Inl e
      | Inr max1 \<Rightarrow>
      (case (if partition1 = m then Inr PosInf else getitem nums1 partition1) of
        Inl e \<Rightarrow> Inl e
      | Inr min1 \<Rightarrow>
      (case (if partition2 = 0 then Inr NegInf else getitem nums2 (partition2 - 1)) of
        Inl e \<Rightarrow> Inl e
      | Inr max2 \<Rightarrow>
      (case (if partition2 = n then Inr PosInf else getitem nums2 partition2) of
        Inl e \<Rightarrow> Inl e
      | Inr min2 \<Rightarrow> Inr (max1, min1, max2, min2)))))"

text \<open>The body of the \<^verbatim>\<open>while\<close> loop ends in a \<^verbatim>\<open>return\<close>, an exception or new bounds.\<close>

datatype outcome = Return pyresult | Raise error | Continue int int

definition partition1_of :: "int \<Rightarrow> int \<Rightarrow> int" where
  "partition1_of left right = (left + right) div 2"

definition partition2_of :: "int list \<Rightarrow> int list \<Rightarrow> int \<Rightarrow> int" where
  "partition2_of nums1 nums2 partition1 =
     (int (length nums1) + int (length nums2) + 1) div 2 - partition1"

definition body :: "int list \<Rightarrow> int list \<Rightarrow> int \<Rightarrow> int \<Rightarrow> outcome" where
  "body nums1 nums2 left right =
     (let m = int (length nums1); n = int (length nums2);
          partition1 = partition1_of left right;
          partition2 = partition2_of nums1 nums2 partition1
      in case boundaries nums1 nums2 partition1 partition2 of
           Inl e \<Rightarrow> Raise e
         | Inr (max1, min1, max2, min2) \<Rightarrow>
             if max1 \<le> min2 \<and> max2 \<le> min1 then
               if (m + n) mod 2 = 0
               then Return (mean2 (max max1 max2) (min min1 min2))
               else Return (of_bound (max max1 max2))
             else if max1 > min2 then Continue left (partition1 - 1)
             else Continue (partition1 + 1) right)"

subsection \<open>The loop and the function\<close>

function search :: "int list \<Rightarrow> int list \<Rightarrow> int \<Rightarrow> int \<Rightarrow> error + pyresult" where
  "search nums1 nums2 left right =
     (if left \<le> right then
        (case body nums1 nums2 left right of
           Return v \<Rightarrow> Inr v
         | Raise e \<Rightarrow> Inl e
         | Continue l r \<Rightarrow> search nums1 nums2 l r)
      else Inr RNone)"
  by pat_completeness auto
termination
proof (relation "measure (\<lambda>(nums1, nums2, left, right). nat (right - left + 1))")
  show "wf (measure (\<lambda>(nums1, nums2, left, right). nat (right - left + 1)))"
    by simp
next
  fix nums1 nums2 :: "int list" and left right l r :: int
  assume le: "left \<le> right" and c: "body nums1 nums2 left right = Continue l r"
  from c have "(l = left \<and> r = partition1_of left right - 1) \<or>
                (l = partition1_of left right + 1 \<and> r = right)"
    by (auto simp: body_def Let_def split: sum.splits prod.splits if_splits)
  with le show "((nums1, nums2, l, r), (nums1, nums2, left, right))
          \<in> measure (\<lambda>(nums1, nums2, left, right). nat (right - left + 1))"
    by (auto simp: partition1_of_def)
qed

declare search.simps [simp del]

text \<open>The candidate partitions the loop examines, in order (a ghost of \<open>search\<close>).\<close>

function candidates :: "int list \<Rightarrow> int list \<Rightarrow> int \<Rightarrow> int \<Rightarrow> (int \<times> int) list" where
  "candidates nums1 nums2 left right =
     (if left \<le> right then
        (partition1_of left right, partition2_of nums1 nums2 (partition1_of left right)) #
        (case body nums1 nums2 left right of
           Continue l r \<Rightarrow> candidates nums1 nums2 l r
         | _ \<Rightarrow> [])
      else [])"
  by pat_completeness auto
termination
proof (relation "measure (\<lambda>(nums1, nums2, left, right). nat (right - left + 1))")
  show "wf (measure (\<lambda>(nums1, nums2, left, right). nat (right - left + 1)))"
    by simp
next
  fix nums1 nums2 :: "int list" and left right l r :: int
  assume le: "left \<le> right" and c: "body nums1 nums2 left right = Continue l r"
  from c have "(l = left \<and> r = partition1_of left right - 1) \<or>
                (l = partition1_of left right + 1 \<and> r = right)"
    by (auto simp: body_def Let_def split: sum.splits prod.splits if_splits)
  with le show "((nums1, nums2, l, r), (nums1, nums2, left, right))
          \<in> measure (\<lambda>(nums1, nums2, left, right). nat (right - left + 1))"
    by (auto simp: partition1_of_def)
qed

declare candidates.simps [simp del]

text \<open>
  The role swap rebinds the two names, so that \<open>nums1\<close> is the shorter list; then the
  loop starts with \<open>left = 0\<close> and \<open>right = m\<close>.
\<close>

definition swap_roles :: "int list \<Rightarrow> int list \<Rightarrow> int list \<times> int list" where
  "swap_roles nums1 nums2 =
     (if length nums1 > length nums2 then (nums2, nums1) else (nums1, nums2))"

definition findMedianSortedArrays :: "int list \<Rightarrow> int list \<Rightarrow> error + pyresult" where
  "findMedianSortedArrays nums1 nums2 =
     (case swap_roles nums1 nums2 of
        (nums1', nums2') \<Rightarrow> search nums1' nums2' 0 (int (length nums1')))"

subsection \<open>The boundary values of a cut, without the error plumbing\<close>

text \<open>
  Inside the index ranges \<open>[0, m]\<close> and \<open>[0, n]\<close> no access raises, and the four
  boundary values are the following pure functions of the cut index.  They are used to
  state the loop invariant and what a successful test returns.
\<close>

definition lmax :: "int list \<Rightarrow> int \<Rightarrow> bound" where
  "lmax xs i = (if i = 0 then NegInf else Val (xs ! nat (i - 1)))"

definition rmin :: "int list \<Rightarrow> int \<Rightarrow> bound" where
  "rmin xs i = (if i = int (length xs) then PosInf else Val (xs ! nat i))"

definition valid_cut :: "int list \<Rightarrow> int list \<Rightarrow> int \<Rightarrow> bool" where
  "valid_cut a b i \<longleftrightarrow>
     lmax a i \<le> rmin b (partition2_of a b i) \<and> lmax b (partition2_of a b i) \<le> rmin a i"

definition result_at :: "int list \<Rightarrow> int list \<Rightarrow> int \<Rightarrow> pyresult" where
  "result_at a b i =
     (let j = partition2_of a b i in
      if (int (length a) + int (length b)) mod 2 = 0
      then mean2 (max (lmax a i) (lmax b j)) (min (rmin a i) (rmin b j))
      else of_bound (max (lmax a i) (lmax b j)))"

subsection \<open>The reference: merge, then index\<close>

text \<open>
  The specification's oracle: merge the two sorted sequences into one sorted sequence
  and take the middle element when the combined length is odd, the arithmetic mean of
  the two middle elements when it is even.
\<close>

fun merge_sorted :: "int list \<Rightarrow> int list \<Rightarrow> int list" where
  "merge_sorted [] ys = ys"
| "merge_sorted (x # xs) [] = x # xs"
| "merge_sorted (x # xs) (y # ys) =
     (if y < x then y # merge_sorted (x # xs) ys else x # merge_sorted xs (y # ys))"

definition median_by_merge :: "int list \<Rightarrow> int list \<Rightarrow> pyresult" where
  "median_by_merge A B =
     (let s = merge_sorted A B; k = length s in
      if k mod 2 = 1 then RInt (s ! (k div 2))
      else RFloat ((of_int (s ! (k div 2 - 1)) + of_int (s ! (k div 2))) / 2))"

section \<open>Order on boundary values\<close>

lemma le_PosInf [simp]: "x \<le> PosInf"
  by (cases x) simp_all

lemma Val_less [simp]: "Val a < Val b \<longleftrightarrow> a < b"
  by (auto simp: less_bound_def)

lemma not_PosInf_le_Val [simp]: "\<not> PosInf \<le> Val a"
  by simp

lemma max_NegInf [simp]: "max NegInf x = x" "max x NegInf = x"
  by (cases x; simp add: max_def)+

lemma min_PosInf [simp]: "min PosInf x = x" "min x PosInf = x"
  by (cases x; simp add: min_def)+

lemma lmax_0 [simp]: "lmax xs 0 = NegInf"
  by (simp add: lmax_def)

lemma rmin_length [simp]: "rmin xs (int (length xs)) = PosInf"
  by (simp add: rmin_def)


section \<open>Properties of one iteration\<close>

lemma body_Continue:
  assumes "body nums1 nums2 left right = Continue l r"
  shows "(l = left \<and> r = partition1_of left right - 1) \<or>
         (l = partition1_of left right + 1 \<and> r = right)"
  using assms
  by (auto simp: body_def Let_def split: sum.splits prod.splits if_splits)

lemma boundaries_in_range:
  assumes "0 \<le> p1" "p1 \<le> int (length a)" "0 \<le> p2" "p2 \<le> int (length b)"
  shows "boundaries a b p1 p2 = Inr (lmax a p1, rmin a p1, lmax b p2, rmin b p2)"
  using assms by (auto simp: boundaries_def getitem_def lmax_def rmin_def Let_def)

lemma body_in_range:
  assumes "0 \<le> left" "left \<le> right" "right \<le> int (length a)" "length a \<le> length b"
  shows "body a b left right =
     (let p = partition1_of left right in
      if valid_cut a b p then Return (result_at a b p)
      else if lmax a p > rmin b (partition2_of a b p) then Continue left (p - 1)
      else Continue (p + 1) right)"
proof -
  let ?p = "partition1_of left right"
  have p: "0 \<le> ?p" "?p \<le> int (length a)"
    using assms by (auto simp: partition1_of_def)
  have q: "0 \<le> partition2_of a b ?p" "partition2_of a b ?p \<le> int (length b)"
    using p assms by (auto simp: partition2_of_def)
  show ?thesis
    by (simp add: body_def boundaries_in_range [OF p q] valid_cut_def result_at_def Let_def)
qed

section \<open>The loop finds a valid cut\<close>

text \<open>
  The invariant speaks about the two cuts just outside \<open>[left, right]\<close>: the one below
  \<open>left\<close> failed the second half of the test, the one above \<open>right\<close> failed the first.
  If the range were empty these two failures would contradict each other, so the loop
  always leaves through \<^verbatim>\<open>return\<close>.  Sortedness plays no part here.
\<close>

lemma search_finds:
  assumes "length a \<le> length b" "0 \<le> left" "right \<le> int (length a)" "left \<le> right + 1"
    and "0 < left \<Longrightarrow> \<not> lmax b (partition2_of a b (left - 1)) \<le> rmin a (left - 1)"
    and "right < int (length a) \<Longrightarrow> \<not> lmax a (right + 1) \<le> rmin b (partition2_of a b (right + 1))"
  shows "\<exists>i. left \<le> i \<and> i \<le> right \<and> valid_cut a b i \<and> search a b left right = Inr (result_at a b i) \<and>
      candidates a b left right \<noteq> [] \<and>
      last (candidates a b left right) = (i, partition2_of a b i)"
  using assms
proof (induction a b left right rule: search.induct)
  case (1 a b left right)
  show ?case
  proof (cases "left \<le> right")
    case False
    with "1.prems" have eq: "left = right + 1" by simp
    have l0: "0 < left"
    proof (rule ccontr)
      assume "\<not> 0 < left"
      with "1.prems" eq have "right < int (length a)" "right + 1 = 0" by auto
      with "1.prems"(6) show False by (simp add: lmax_def)
    qed
    have rm: "right < int (length a)"
    proof (rule ccontr)
      assume "\<not> right < int (length a)"
      with "1.prems" eq have "left - 1 = int (length a)" by auto
      with "1.prems"(5) l0 show False by (simp add: rmin_def)
    qed
    have j: "partition2_of a b (right + 1) = partition2_of a b right - 1"
      by (simp add: partition2_of_def)
    have "\<not> lmax b (partition2_of a b right) \<le> rmin a right"
      using "1.prems"(5) [OF l0] eq by simp
    moreover have "\<not> lmax a (right + 1) \<le> rmin b (partition2_of a b right - 1)"
      using "1.prems"(6) [OF rm] j by simp
    ultimately have False
      using l0 rm eq by (auto simp: lmax_def rmin_def split: if_splits)
    then show ?thesis ..
  next
    case True
    let ?p = "partition1_of left right"
    have pr: "left \<le> ?p" "?p \<le> right"
      using True by (auto simp: partition1_of_def)
    have bd: "body a b left right =
       (if valid_cut a b ?p then Return (result_at a b ?p)
        else if lmax a ?p > rmin b (partition2_of a b ?p) then Continue left (?p - 1)
        else Continue (?p + 1) right)"
      using body_in_range [of left right a b] "1.prems" True by (simp add: Let_def)
    show ?thesis
    proof (cases "valid_cut a b ?p")
      case True
      with bd \<open>left \<le> right\<close> pr show ?thesis
        by (subst search.simps, subst (1 2) candidates.simps) auto
    next
      case nv: False
      show ?thesis
      proof (cases "lmax a ?p > rmin b (partition2_of a b ?p)")
        case gt: True
        have c: "body a b left right = Continue left (?p - 1)"
          using bd nv gt by simp
        have "\<exists>i. left \<le> i \<and> i \<le> ?p - 1 \<and> valid_cut a b i \<and>
                 search a b left (?p - 1) = Inr (result_at a b i) \<and>
                 candidates a b left (?p - 1) \<noteq> [] \<and>
                 last (candidates a b left (?p - 1)) = (i, partition2_of a b i)"
        proof (rule "1.IH" [OF True c])
          show "length a \<le> length b" "0 \<le> left" by fact+
          show "?p - 1 \<le> int (length a)" using pr "1.prems" by simp
          show "left \<le> ?p - 1 + 1" using pr by simp
          show "\<not> lmax b (partition2_of a b (left - 1)) \<le> rmin a (left - 1)" if "0 < left"
            using "1.prems"(5) that by simp
          show "\<not> lmax a (?p - 1 + 1) \<le> rmin b (partition2_of a b (?p - 1 + 1))"
            using gt by simp
        qed
        then obtain i where i: "left \<le> i \<and> i \<le> ?p - 1" "valid_cut a b i"
            "search a b left (?p - 1) = Inr (result_at a b i)"
            "candidates a b left (?p - 1) \<noteq> []"
            "last (candidates a b left (?p - 1)) = (i, partition2_of a b i)"
          by blast
        have "search a b left right = search a b left (?p - 1)"
          using c True by (subst search.simps) simp
        moreover have "candidates a b left right =
            (?p, partition2_of a b ?p) # candidates a b left (?p - 1)"
          using c True by (subst candidates.simps) simp
        ultimately show ?thesis
          using i pr by (intro exI [of _ i]) auto
      next
        case ngt: False
        have c: "body a b left right = Continue (?p + 1) right"
          using bd nv ngt by simp
        have q: "\<not> lmax b (partition2_of a b ?p) \<le> rmin a ?p"
          using nv ngt by (auto simp: valid_cut_def)
        have "\<exists>i. ?p + 1 \<le> i \<and> i \<le> right \<and> valid_cut a b i \<and>
                 search a b (?p + 1) right = Inr (result_at a b i) \<and>
                 candidates a b (?p + 1) right \<noteq> [] \<and>
                 last (candidates a b (?p + 1) right) = (i, partition2_of a b i)"
        proof (rule "1.IH" [OF True c])
          show "length a \<le> length b" "right \<le> int (length a)" by fact+
          show "0 \<le> ?p + 1" using pr "1.prems" by simp
          show "?p + 1 \<le> right + 1" using pr by simp
          show "\<not> lmax b (partition2_of a b (?p + 1 - 1)) \<le> rmin a (?p + 1 - 1)"
            using q by simp
          show "\<not> lmax a (right + 1) \<le> rmin b (partition2_of a b (right + 1))"
            if "right < int (length a)"
            using "1.prems"(6) that by simp
        qed
        then obtain i where i: "?p + 1 \<le> i \<and> i \<le> right" "valid_cut a b i"
            "search a b (?p + 1) right = Inr (result_at a b i)"
            "candidates a b (?p + 1) right \<noteq> []"
            "last (candidates a b (?p + 1) right) = (i, partition2_of a b i)"
          by blast
        have "search a b left right = search a b (?p + 1) right"
          using c True by (subst search.simps) simp
        moreover have "candidates a b left right =
            (?p, partition2_of a b ?p) # candidates a b (?p + 1) right"
          using c True by (subst candidates.simps) simp
        ultimately show ?thesis
          using i pr by (intro exI [of _ i]) auto
      qed
    qed
  qed
qed

section \<open>The reference merge\<close>

lemma mset_merge_sorted: "mset (merge_sorted xs ys) = mset xs + mset ys"
  by (induction xs ys rule: merge_sorted.induct) auto

lemma set_merge_sorted: "set (merge_sorted xs ys) = set xs \<union> set ys"
  by (induction xs ys rule: merge_sorted.induct) auto

lemma sorted_merge_sorted: "sorted xs \<Longrightarrow> sorted ys \<Longrightarrow> sorted (merge_sorted xs ys)"
  by (induction xs ys rule: merge_sorted.induct) (auto simp: set_merge_sorted)

lemma merge_sorted_sort:
  assumes "sorted xs" "sorted ys"
  shows "merge_sorted xs ys = sort (xs @ ys)"
proof -
  have "sort (xs @ ys) = merge_sorted xs ys"
    by (rule properties_for_sort) (simp_all add: mset_merge_sorted sorted_merge_sorted assms)
  then show ?thesis by simp
qed

section \<open>A valid cut of two sorted lists yields the median\<close>

text \<open>
  With the cut at \<open>i\<close> and \<open>j\<close>, the left part \<open>take i a @ take j b\<close> holds
  \<open>(m + n + 1) div 2\<close> elements, each at most every element of the right part
  \<open>drop i a @ drop j b\<close>.  Hence the merged sequence is the sorted left part followed
  by the sorted right part, the larger of the two left boundary values is the last
  element of the former and the smaller of the two right boundary values the first
  element of the latter.
\<close>

lemma lmax_int: "lmax xs (int i) = (if i = 0 then NegInf else Val (xs ! (i - 1)))"
  by (auto simp: lmax_def nat_diff_distrib)

lemma rmin_int: "rmin xs (int i) = (if i = length xs then PosInf else Val (xs ! i))"
  by (auto simp: rmin_def)

lemma take_le_lmax:
  assumes "sorted xs" "i \<le> length xs" "x \<in> set (take i xs)"
  shows "Val x \<le> lmax xs (int i)"
proof -
  from assms(3) obtain t where t: "t < i" "t < length xs" "x = xs ! t"
    using assms(2) by (auto simp: in_set_conv_nth)
  then have "xs ! t \<le> xs ! (i - 1)"
    using assms by (intro sorted_nth_mono) auto
  with t show ?thesis by (simp add: lmax_int)
qed

lemma rmin_le_drop:
  assumes "sorted xs" "i \<le> length xs" "y \<in> set (drop i xs)"
  shows "rmin xs (int i) \<le> Val y"
proof -
  from assms(3) obtain t where "t < length xs - i" "y = xs ! (i + t)"
    by (auto simp: in_set_conv_nth)
  then have t: "i + t < length xs" "y = xs ! (i + t)"
    by auto
  then have "xs ! i \<le> xs ! (i + t)"
    using assms by (intro sorted_nth_mono) auto
  with t show ?thesis by (simp add: rmin_int)
qed

lemma lmax_in_take:
  assumes "0 < i" "i \<le> length xs"
  shows "lmax xs (int i) \<in> Val ` set (take i xs)"
proof -
  have "xs ! (i - 1) = take i xs ! (i - 1)" using assms by simp
  moreover have "take i xs ! (i - 1) \<in> set (take i xs)"
    using assms by (intro nth_mem) simp
  ultimately show ?thesis using assms by (simp add: lmax_int)
qed

lemma rmin_in_drop:
  assumes "i < length xs"
  shows "rmin xs (int i) \<in> Val ` set (drop i xs)"
proof -
  have "xs ! i = drop i xs ! 0" using assms by simp
  moreover have "drop i xs ! 0 \<in> set (drop i xs)"
    using assms by (intro nth_mem) simp
  ultimately show ?thesis using assms by (simp add: rmin_int)
qed

lemma sorted_last_top:
  assumes "sorted (s :: int list)" "v \<in> set s" "\<forall>x\<in>set s. x \<le> v"
  shows "last s = v"
proof -
  from assms(2) have ne: "s \<noteq> []" by auto
  then have "last s \<in> set s" by simp
  with assms(3) have "last s \<le> v" by blast
  moreover from assms(2) obtain t where "t < length s" "v = s ! t"
    by (auto simp: in_set_conv_nth)
  then have "v \<le> last s"
    using assms(1) ne by (simp add: last_conv_nth sorted_nth_mono)
  ultimately show ?thesis by simp
qed

lemma sorted_hd_bottom:
  assumes "sorted (s :: int list)" "v \<in> set s" "\<forall>x\<in>set s. v \<le> x"
  shows "hd s = v"
proof -
  from assms(2) have ne: "s \<noteq> []" by auto
  then have "hd s \<in> set s" by simp
  with assms(3) have "v \<le> hd s" by blast
  moreover from assms(2) obtain t where "t < length s" "v = s ! t"
    by (auto simp: in_set_conv_nth)
  then have "hd s \<le> v"
    using assms(1) ne by (simp add: hd_conv_nth sorted_nth_mono)
  ultimately show ?thesis by simp
qed

lemma cut_is_median:
  assumes sa: "sorted a" and sb: "sorted b" and len: "length a \<le> length b"
    and ne: "0 < length a + length b"
    and i: "i \<le> length a" and v: "valid_cut a b (int i)"
  shows "result_at a b (int i) = median_by_merge a b"
proof -
  define k where "k = (length a + length b + 1) div 2"
  define j where "j = k - i"
  have ik: "i \<le> k" "j \<le> length b" "i + j = k" "0 < k"
    using len i ne by (auto simp: k_def j_def)
  have pj: "partition2_of a b (int i) = int j"
    using ik(1) by (simp add: partition2_of_def j_def k_def of_nat_diff zdiv_int)
  define L where "L = take i a @ take j b"
  define R where "R = drop i a @ drop j b"
  define top where "top = max (lmax a (int i)) (lmax b (int j))"
  define bot where "bot = min (rmin a (int i)) (rmin b (int j))"
  from v pj have v1: "lmax a (int i) \<le> rmin b (int j)" and v2: "lmax b (int j) \<le> rmin a (int i)"
    by (simp_all add: valid_cut_def)
  have lenL: "length L = k" and lenR: "length R = length a + length b - k"
    using i ik by (auto simp: L_def R_def)
  have top_ub: "Val x \<le> top" if "x \<in> set L" for x
    using that take_le_lmax [OF sa i] take_le_lmax [OF sb ik(2)]
    by (auto simp: L_def top_def le_max_iff_disj)
  have bot_lb: "bot \<le> Val y" if "y \<in> set R" for y
    using that rmin_le_drop [OF sa i] rmin_le_drop [OF sb ik(2)]
    by (auto simp: R_def bot_def min_le_iff_disj)
  have top_bot: "top \<le> bot"
  proof -
    have "lmax a (int i) \<le> rmin a (int i)"
    proof (cases "i = 0 \<or> i = length a")
      case True
      then show ?thesis by (auto simp: lmax_int rmin_int)
    next
      case False
      then have "a ! (i - 1) \<le> a ! i"
        using sa i by (intro sorted_nth_mono) auto
      with False show ?thesis by (simp add: lmax_int rmin_int)
    qed
    moreover have "lmax b (int j) \<le> rmin b (int j)"
    proof (cases "j = 0 \<or> j = length b")
      case True
      then show ?thesis by (auto simp: lmax_int rmin_int)
    next
      case False
      then have "b ! (j - 1) \<le> b ! j"
        using sb ik(2) by (intro sorted_nth_mono) auto
      with False show ?thesis by (simp add: lmax_int rmin_int)
    qed
    ultimately show ?thesis
      using v1 v2 by (simp add: top_def bot_def)
  qed
  have LR: "x \<le> y" if "x \<in> set L" "y \<in> set R" for x y
  proof -
    have "Val x \<le> Val y"
      using top_ub [OF that(1)] top_bot bot_lb [OF that(2)] by (rule order_trans [OF order_trans])
    then show ?thesis by simp
  qed
  have top_in: "top \<in> Val ` set L"
  proof (cases "i = 0")
    case True
    with ik have "0 < j" by simp
    from lmax_in_take [OF this ik(2)] True show ?thesis
      by (simp add: top_def L_def)
  next
    case False
    then have a: "lmax a (int i) \<in> Val ` set (take i a)"
      using lmax_in_take [of i a] i by simp
    show ?thesis
    proof (cases "j = 0")
      case True
      with a show ?thesis by (simp add: top_def L_def)
    next
      case False
      then have "lmax b (int j) \<in> Val ` set (take j b)"
        using lmax_in_take [of j b] ik(2) by simp
      with a show ?thesis
        by (auto simp: top_def L_def max_def)
    qed
  qed
  have bot_in: "bot \<in> Val ` set R" if "k < length a + length b"
  proof (cases "i = length a")
    case True
    with that ik have "j < length b" by simp
    from rmin_in_drop [OF this] True show ?thesis
      by (simp add: bot_def R_def)
  next
    case False
    then have a: "rmin a (int i) \<in> Val ` set (drop i a)"
      using rmin_in_drop [of i a] i by simp
    show ?thesis
    proof (cases "j = length b")
      case True
      with a show ?thesis by (simp add: bot_def R_def)
    next
      case False
      then have "rmin b (int j) \<in> Val ` set (drop j b)"
        using rmin_in_drop [of j b] ik(2) by simp
      with a show ?thesis
        by (auto simp: bot_def R_def min_def)
    qed
  qed
  define s where "s = merge_sorted a b"
  have s: "s = sort L @ sort R"
  proof -
    have "mset (sort L @ sort R) = mset (a @ b)"
    proof -
      have "mset (take i a) + mset (drop i a) = mset a"
        "mset (take j b) + mset (drop j b) = mset b"
        by (simp_all flip: mset_append)
      then show ?thesis
        by (simp add: L_def R_def ac_simps)
    qed
    moreover have "sorted (sort L @ sort R)"
      using LR by (auto simp: sorted_append)
    ultimately have "sort (a @ b) = sort L @ sort R"
      by (rule properties_for_sort)
    then show ?thesis
      by (simp add: s_def merge_sorted_sort [OF sa sb])
  qed
  have lens: "length s = length a + length b"
    by (simp add: s_def merge_sorted_sort [OF sa sb])
  from top_in obtain vt where vt: "top = Val vt" "vt \<in> set L" by auto
  have "last (sort L) = vt"
  proof (rule sorted_last_top)
    show "\<forall>x\<in>set (sort L). x \<le> vt"
      using top_ub vt(1) by auto
  qed (use vt in simp_all)
  moreover have "sort L \<noteq> []"
  proof
    assume "sort L = []"
    then have "length (sort L) = 0" by simp
    with lenL ik(4) show False by simp
  qed
  then have "last (sort L) = sort L ! (k - 1)"
    using lenL by (simp add: last_conv_nth)
  ultimately have sk1: "s ! (k - 1) = vt"
    using ik(4) lenL by (simp add: s nth_append)
  show ?thesis
  proof (cases "(length a + length b) mod 2 = 1")
    case True
    then have "(length a + length b) div 2 = k - 1"
      unfolding k_def by presburger
    moreover have "(int (length a) + int (length b)) mod 2 \<noteq> 0"
      using True by presburger
    ultimately show ?thesis
      using True sk1 vt(1)
      by (simp add: median_by_merge_def result_at_def pj Let_def lens top_def
        flip: s_def)
  next
    case False
    then have even: "(length a + length b) div 2 = k" "k < length a + length b"
      using ne unfolding k_def by presburger+
    have ie: "(int (length a) + int (length b)) mod 2 = 0"
      using False by presburger
    from bot_in [OF even(2)] obtain vb where vb: "bot = Val vb" "vb \<in> set R" by auto
    have "hd (sort R) = vb"
    proof (rule sorted_hd_bottom)
      show "\<forall>x\<in>set (sort R). vb \<le> x"
        using bot_lb vb(1) by auto
    qed (use vb in simp_all)
    moreover have "sort R \<noteq> []"
    proof
      assume "sort R = []"
      then have "length (sort R) = 0" by simp
      with lenR even(2) show False by simp
    qed
    ultimately have sk: "s ! k = vb"
      using lenL by (simp add: s nth_append hd_conv_nth)
    have "result_at a b (int i) = mean2 top bot"
      using ie by (simp add: result_at_def pj Let_def top_def bot_def)
    also have "\<dots> = RFloat ((of_int vt + of_int vb) / 2)"
      by (simp add: vt(1) vb(1))
    also have "\<dots> = median_by_merge a b"
      using False even(1) sk sk1
      by (simp add: median_by_merge_def Let_def lens flip: s_def)
    finally show ?thesis .
  qed
qed

section \<open>The whole function\<close>

lemma swap_roles_cases:
  assumes "swap_roles A B = (a, b)"
  shows "length a \<le> length b \<and> ((a = A \<and> b = B) \<or> (a = B \<and> b = A))"
  using assms by (auto simp: swap_roles_def split: if_splits)

lemma find_finds:
  assumes "swap_roles A B = (a, b)"
  shows "\<exists>i. 0 \<le> i \<and> i \<le> int (length a) \<and> valid_cut a b i \<and>
      findMedianSortedArrays A B = Inr (result_at a b i) \<and>
      candidates a b 0 (int (length a)) \<noteq> [] \<and>
      last (candidates a b 0 (int (length a))) = (i, partition2_of a b i)"
proof -
  have "length a \<le> length b"
    using swap_roles_cases [OF assms] by simp
  then have "\<exists>i. 0 \<le> i \<and> i \<le> int (length a) \<and> valid_cut a b i \<and>
      search a b 0 (int (length a)) = Inr (result_at a b i) \<and>
      candidates a b 0 (int (length a)) \<noteq> [] \<and>
      last (candidates a b 0 (int (length a))) = (i, partition2_of a b i)"
    by (intro search_finds) simp_all
  then show ?thesis
    by (simp add: findMedianSortedArrays_def assms)
qed




lemma merge_sorted_commute:
  assumes "sorted A" "sorted B"
  shows "merge_sorted A B = merge_sorted B A"
proof -
  have "sort (A @ B) = sort (B @ A)"
    by (rule properties_for_sort) simp_all
  then show ?thesis
    by (simp add: merge_sorted_sort assms)
qed

lemma find_median:
  assumes "sorted A" "sorted B" "A \<noteq> [] \<or> B \<noteq> []"
  shows "findMedianSortedArrays A B = Inr (median_by_merge A B)"
proof -
  obtain a b where ab: "swap_roles A B = (a, b)"
    by (cases "swap_roles A B")
  from swap_roles_cases [OF ab]
  have len: "length a \<le> length b" and or: "(a = A \<and> b = B) \<or> (a = B \<and> b = A)"
    by simp_all
  from or assms have s: "sorted a" "sorted b" and ne: "0 < length a + length b"
    by auto
  from or assms have m: "median_by_merge a b = median_by_merge A B"
    by (auto simp: median_by_merge_def merge_sorted_commute)
  from find_finds [OF ab] obtain i where i: "0 \<le> i" "i \<le> int (length a)"
      "valid_cut a b i" "findMedianSortedArrays A B = Inr (result_at a b i)"
    by blast
  from i(1,2) obtain t where t: "i = int t" "t \<le> length a"
    by (metis nat_le_iff nonneg_int_cases of_nat_le_iff)
  from cut_is_median [OF s len ne t(2)] i(3) t(1)
  have "result_at a b i = median_by_merge a b" by simp
  with i(4) m show ?thesis by simp
qed

lemma candidates_range:
  assumes "(p1, p2) \<in> set (candidates a b left right)"
  shows "left \<le> p1 \<and> p1 \<le> right \<and> p2 = partition2_of a b p1"
  using assms
proof (induction a b left right rule: candidates.induct)
  case (1 a b left right)
  show ?case
  proof (cases "left \<le> right")
    case False
    with "1.prems" show ?thesis
      by (subst (asm) candidates.simps) simp
  next
    case True
    let ?p = "partition1_of left right"
    have pr: "left \<le> ?p" "?p \<le> right"
      using True by (auto simp: partition1_of_def)
    have "candidates a b left right = (?p, partition2_of a b ?p) #
        (case body a b left right of Continue l r \<Rightarrow> candidates a b l r | _ \<Rightarrow> [])"
      using True by (subst candidates.simps) simp
    with "1.prems"
    consider "(p1, p2) = (?p, partition2_of a b ?p)"
      | l r where "body a b left right = Continue l r" "(p1, p2) \<in> set (candidates a b l r)"
      by (auto split: outcome.splits)
    then show ?thesis
    proof cases
      case 1
      with pr show ?thesis by simp
    next
      case 2
      from "1.IH" [OF True 2(1) 2(2)] body_Continue [OF 2(1)] pr
      show ?thesis by auto
    qed
  qed
qed

lemma ceiling_half: "\<lceil>(of_int k :: rat) / 2\<rceil> = (k + 1) div 2"
proof -
  have "\<lceil>(of_int k :: rat) / of_int 2\<rceil> = - (- k div 2)"
    by (rule ceiling_divide_eq_div)
  then show ?thesis by simp
qed

section \<open>The claims of the specification\<close>



text \<open>
  Claim C2 says that two empty inputs make the function fail with an error and that it
  never hands back NaN silently.  The code has no check and no \<^verbatim>\<open>raise\<close>: it returns
  NaN.  The counterexample first, then what the code does: the loop runs once, the cut
  \<open>(0, 0)\<close> has four sentinels as boundary values and passes the test, the combined
  length \<open>0\<close> is even, and \<open>(-inf + inf) / 2\<close> is NaN; no error is raised.
\<close>

theorem C2_both_empty_returns_nan_counterexample:
  "findMedianSortedArrays [] [] = Inr RNaN"
  by code_simp

text \<open>
  Claim C2, as the code has it: with both inputs empty the function raises nothing
  and returns NaN from the first and only candidate partition.
\<close>

theorem C2_both_empty_first_cut_passes:
  "candidates [] [] 0 0 = [(0, 0)] \<and>
   boundaries [] [] 0 0 = Inr (NegInf, PosInf, NegInf, PosInf) \<and>
   body [] [] 0 0 = Return RNaN \<and>
   findMedianSortedArrays [] [] = Inr RNaN \<and>
   \<not> isl (findMedianSortedArrays [] [])"
  by code_simp

text \<open>
  Claim C3.  Every candidate partition the loop examines, from any loop state and for
  any two lists, satisfies \<open>partition1 + partition2 = \<lceil>(m + n) / 2\<rceil>\<close>; the last
  candidate, at which the search ends, is among them.
\<close>

theorem C3_partition_sum:
  assumes "(partition1, partition2) \<in> set (candidates nums1 nums2 left right)"
  shows "partition1 + partition2 =
           \<lceil>(of_int (int (length nums1) + int (length nums2)) :: rat) / 2\<rceil>"
proof -
  from candidates_range [OF assms]
  have "partition2 = partition2_of nums1 nums2 partition1" by simp
  then show ?thesis
    by (simp only: ceiling_half partition2_of_def)
qed

theorem C3_partition_sum_witness:
  "(2, 0) \<in> set (candidates [1, 2] [3, 4] 0 2) \<and>
   (2 :: int) + 0 = \<lceil>(of_int (int (length [1, 2 :: int]) + int (length [3, 4 :: int])) :: rat) / 2\<rceil>"
proof -
  have m: "(2, 0) \<in> set (candidates [1, 2] [3, 4] 0 2)"
    by code_simp
  from m C3_partition_sum [OF m] show ?thesis
    by simp
qed



text \<open>
  Claim C5.  After the role swap, every candidate partition has \<open>partition1\<close> in
  \<open>[0, m]\<close> and \<open>partition2\<close> in \<open>[0, n]\<close>; each of the four list accesses whose
  sentinel guard does not fire is within the list, so computing the boundary values
  raises no \<^verbatim>\<open>IndexError\<close>, and neither does the function.  No sortedness is needed.
\<close>

theorem C5_candidate_partitions_in_bounds:
  assumes "swap_roles A B = (nums1, nums2)"
  shows "(\<forall>(partition1, partition2) \<in> set (candidates nums1 nums2 0 (int (length nums1))).
            0 \<le> partition1 \<and> partition1 \<le> int (length nums1) \<and>
            0 \<le> partition2 \<and> partition2 \<le> int (length nums2) \<and>
            (partition1 \<noteq> 0 \<longrightarrow>
               0 \<le> partition1 - 1 \<and> partition1 - 1 < int (length nums1)) \<and>
            (partition1 \<noteq> int (length nums1) \<longrightarrow>
               0 \<le> partition1 \<and> partition1 < int (length nums1)) \<and>
            (partition2 \<noteq> 0 \<longrightarrow>
               0 \<le> partition2 - 1 \<and> partition2 - 1 < int (length nums2)) \<and>
            (partition2 \<noteq> int (length nums2) \<longrightarrow>
               0 \<le> partition2 \<and> partition2 < int (length nums2)) \<and>
            boundaries nums1 nums2 partition1 partition2 \<noteq> Inl IndexError) \<and>
         findMedianSortedArrays A B \<noteq> Inl IndexError"
proof -
  from swap_roles_cases [OF assms] have len: "length nums1 \<le> length nums2"
    by simp
  have "0 \<le> p1 \<and> p1 \<le> int (length nums1) \<and> 0 \<le> p2 \<and> p2 \<le> int (length nums2) \<and>
        boundaries nums1 nums2 p1 p2 \<noteq> Inl IndexError"
    if "(p1, p2) \<in> set (candidates nums1 nums2 0 (int (length nums1)))" for p1 p2
  proof -
    from candidates_range [OF that]
    have p: "0 \<le> p1" "p1 \<le> int (length nums1)" and q: "p2 = partition2_of nums1 nums2 p1"
      by simp_all
    have j: "0 \<le> p2" "p2 \<le> int (length nums2)"
      using p q len by (auto simp: partition2_of_def)
    from boundaries_in_range [OF p j] p j show ?thesis by simp
  qed
  moreover from find_finds [OF assms] have "findMedianSortedArrays A B \<noteq> Inl IndexError"
    by auto
  ultimately show ?thesis by fastforce
qed

theorem C5_candidate_partitions_in_bounds_witness:
  "swap_roles [1, 2] [3, 4] = ([1, 2], [3, 4]) \<and>
   (2, 0) \<in> set (candidates [1, 2] [3, 4] 0 (int (length [1, 2 :: int]))) \<and>
   boundaries [1, 2] [3, 4] 2 0 = Inr (Val 2, PosInf, NegInf, Val 3) \<and>
   boundaries [1, 2] [3, 4] 2 0 \<noteq> Inl IndexError \<and>
   findMedianSortedArrays [1, 2] [3, 4] \<noteq> Inl IndexError"
proof -
  have w: "swap_roles [1, 2] [3, 4] = ([1, 2], [3, 4])"
    by (simp add: swap_roles_def)
  have c: "(2, 0) \<in> set (candidates [1, 2] [3, 4] 0 (int (length [1, 2 :: int])))"
    by code_simp
  have b: "boundaries [1, 2] [3, 4] 2 0 = Inr (Val 2, PosInf, NegInf, Val 3)"
    by code_simp
  note t = C5_candidate_partitions_in_bounds [OF w]
  from t [THEN conjunct1, THEN bspec, OF c]
  have "boundaries [1, 2] [3, 4] 2 0 \<noteq> Inl IndexError"
    by simp
  moreover from t have "findMedianSortedArrays [1, 2] [3, 4] \<noteq> Inl IndexError"
    by (rule conjunct2)
  ultimately show ?thesis
    using w c b by simp
qed

text \<open>
  Claim C6.  For ascending-sorted \<open>A\<close> and \<open>B\<close>, not both empty, swapping the two
  arguments does not change the result.
\<close>

theorem C6_symmetric:
  assumes "sorted A" and "sorted B" and "A \<noteq> [] \<or> B \<noteq> []"
  shows "findMedianSortedArrays A B = findMedianSortedArrays B A"
proof -
  have "findMedianSortedArrays A B = Inr (median_by_merge A B)"
    using assms by (rule find_median)
  moreover have "findMedianSortedArrays B A = Inr (median_by_merge B A)"
    using assms by (intro find_median) auto
  moreover have "median_by_merge A B = median_by_merge B A"
    using assms by (simp add: median_by_merge_def merge_sorted_commute)
  ultimately show ?thesis by simp
qed

theorem C6_symmetric_witness:
  "sorted [1, 2, 6 :: int] \<and> sorted [3 :: int] \<and> [3 :: int] \<noteq> [] \<and>
   findMedianSortedArrays [1, 2, 6] [3] = findMedianSortedArrays [3] [1, 2, 6] \<and>
   findMedianSortedArrays [3] [1, 2, 6] = Inr (RFloat (5 / 2))"
proof -
  have s: "sorted [1, 2, 6 :: int]" "sorted [3 :: int]"
    and n: "[1, 2, 6 :: int] \<noteq> [] \<or> [3 :: int] \<noteq> []"
    by simp_all
  have "findMedianSortedArrays [3] [1, 2, 6] = Inr (RFloat (5 / 2))"
    by code_simp
  with s C6_symmetric [OF s n] show ?thesis by simp
qed



text \<open>
  Claim C8.  When the test fails at the candidate of a loop state: if
  \<open>max1 > min2\<close> the loop goes on with \<open>right = partition1 - 1\<close>; otherwise
  \<open>max2 > min1\<close> holds and it goes on with \<open>left = partition1 + 1\<close>.  There is no
  third transition.
\<close>

theorem C8_search_step:
  assumes "partition1_of left right = partition1"
    and "partition2_of nums1 nums2 partition1 = partition2"
    and "left \<le> right"
    and "boundaries nums1 nums2 partition1 partition2 = Inr (max1, min1, max2, min2)"
    and "\<not> (max1 \<le> min2 \<and> max2 \<le> min1)"
  shows "if max1 > min2
         then body nums1 nums2 left right = Continue left (partition1 - 1) \<and>
              search nums1 nums2 left right = search nums1 nums2 left (partition1 - 1)
         else max2 > min1 \<and>
              body nums1 nums2 left right = Continue (partition1 + 1) right \<and>
              search nums1 nums2 left right = search nums1 nums2 (partition1 + 1) right"
proof (cases "max1 > min2")
  case True
  with assms have "body nums1 nums2 left right = Continue left (partition1 - 1)"
    by (simp add: body_def Let_def)
  with True assms(3) show ?thesis
    by (subst search.simps) simp
next
  case False
  with assms have "body nums1 nums2 left right = Continue (partition1 + 1) right"
    by (auto simp: body_def Let_def)
  moreover from False assms(5) have "max2 > min1" by auto
  ultimately show ?thesis
    using False assms(3) by (subst search.simps) simp
qed

theorem C8_search_step_witness:
  "partition1_of 0 2 = 1 \<and> partition2_of [1, 2] [3, 4] 1 = 1 \<and>
   (0 :: int) \<le> 2 \<and>
   boundaries [1, 2] [3, 4] 1 1 = Inr (Val 1, Val 2, Val 3, Val 4) \<and>
   \<not> Val 3 \<le> Val 2 \<and>
   body [1, 2] [3, 4] 0 2 = Continue (1 + 1) 2 \<and>
   search [1, 2] [3, 4] 0 2 = search [1, 2] [3, 4] (1 + 1) 2"
proof -
  have h: "partition1_of 0 2 = 1" "partition2_of [1, 2] [3, 4] 1 = 1"
    "(0 :: int) \<le> 2"
    "boundaries [1, 2] [3, 4] 1 1 = Inr (Val 1, Val 2, Val 3, Val 4)"
    by code_simp+
  have n: "\<not> (Val 1 \<le> Val 4 \<and> Val 3 \<le> Val 2)" by simp
  from h C8_search_step [OF h n] show ?thesis
    by simp
qed

text \<open>
  Claim C9.  The boundary inputs of the specification.  Python's \<open>1.5\<close> and
  \<open>2.5\<close> are the floats \<open>3 / 2\<close> and \<open>5 / 2\<close>; for \<open>[1, 1]\<close> and \<open>[1, 1]\<close> the
  even branch returns the float \<open>1.0\<close>, which equals \<open>1\<close>.
\<close>

theorem C9_boundary_inputs:
  "findMedianSortedArrays [] [2, 3, 4] = Inr (RInt 3) \<and>
   findMedianSortedArrays [] [1, 2] = Inr (RFloat (3 / 2)) \<and>
   findMedianSortedArrays [1] [2] = Inr (RFloat (3 / 2)) \<and>
   findMedianSortedArrays [1, 3] [2] = Inr (RInt 2) \<and>
   findMedianSortedArrays [1, 2] [3, 4] = Inr (RFloat (5 / 2)) \<and>
   findMedianSortedArrays [1, 1] [1, 1] = Inr (RFloat 1)"
  by code_simp

text \<open>
  Claim C10.  For ascending-sorted inputs, not both empty, of odd combined length the
  function returns an integer that is an element of one of the two lists, never a
  sentinel and never a float.
\<close>

theorem C10_odd_result_is_element:
  assumes "sorted A" and "sorted B" and "A \<noteq> [] \<or> B \<noteq> []"
    and "odd (length A + length B)"
  shows "\<exists>x \<in> set A \<union> set B. findMedianSortedArrays A B = Inr (RInt x)"
proof -
  let ?s = "merge_sorted A B"
  have len: "length ?s = length A + length B"
    using arg_cong [OF mset_merge_sorted [of A B], of size] by simp
  with assms(4) have "length ?s mod 2 = 1" "length ?s div 2 < length ?s"
    by presburger+
  then have "median_by_merge A B = RInt (?s ! (length ?s div 2))" "?s ! (length ?s div 2) \<in> set ?s"
    by (simp_all add: median_by_merge_def Let_def)
  with find_median [OF assms(1-3)] show ?thesis
    by (auto simp: set_merge_sorted)
qed

theorem C10_odd_result_is_element_witness:
  "sorted [1, 3 :: int] \<and> sorted [2 :: int] \<and> [2 :: int] \<noteq> [] \<and>
   odd (length [1, 3 :: int] + length [2 :: int]) \<and>
   (2 :: int) \<in> set [1, 3] \<union> set [2] \<and> findMedianSortedArrays [1, 3] [2] = Inr (RInt 2)"
proof -
  have s: "sorted [1, 3 :: int]" "sorted [2 :: int]"
    and n: "[1, 3 :: int] \<noteq> [] \<or> [2 :: int] \<noteq> []"
    and d: "odd (length [1, 3 :: int] + length [2 :: int])"
    by simp_all
  from C10_odd_result_is_element [OF s n d]
  obtain x where "x \<in> set [1, 3] \<union> set [2 :: int]" "findMedianSortedArrays [1, 3] [2] = Inr (RInt x)"
    by blast
  moreover have "findMedianSortedArrays [1, 3] [2] = Inr (RInt 2)"
    by code_simp
  ultimately show ?thesis using s d by simp
qed

end
